theory Spec2Isabelle
  imports Main "HOL-Library.Word"
begin

unbundle bit_operations_syntax

section \<open>Sockets as values\<close>

text \<open>
  The C code talks to the kernel through \<^verbatim>\<open>recv\<close> and \<^verbatim>\<open>send\<close>.  The receive side
  of a socket is a queue of chunks, in the order in which \<^verbatim>\<open>recv\<close> will deliver
  them.  A call that asks for \<open>k\<close> bytes gets at most \<open>k\<close> bytes of the first chunk
  (a short read); what is left of the chunk stays at the head of the queue.  An empty
  chunk stands for a call that returns \<open>n \<le> 0\<close> (timeout, reset, error), and so does
  the exhausted queue (end of stream).  The result list is the bytes stored; its
  length is the \<open>n\<close> of the C code, and \<open>[]\<close> is \<open>n \<le> 0\<close>.
\<close>

type_synonym u8 = "8 word"
type_synonym u16 = "16 word"
type_synonym u32 = "32 word"
type_synonym u64 = "64 word"

type_synonym rxq = "u8 list list"

fun recv :: "nat \<Rightarrow> rxq \<Rightarrow> u8 list \<times> rxq" where
  "recv k [] = ([], [])"
| "recv k (c # cs) =
     (if length c \<le> k then (c, cs) else (take k c, drop k c # cs))"



text \<open>The bytes a receiver can get before the first failing call.\<close>

definition avail :: "rxq \<Rightarrow> u8 list" where
  "avail s = concat (takeWhile (\<lambda>c. c \<noteq> []) s)"

text \<open>The C cast \<^verbatim>\<open>(int)x\<close> of an unsigned 64-bit or 32-bit value: the low 32 bits, read
  as two's complement.\<close>

definition int_of_u64 :: "u64 \<Rightarrow> int" where
  "int_of_u64 x = sint (ucast x :: u32)"

definition int_of_u32 :: "u32 \<Rightarrow> int" where
  "int_of_u32 x = sint x"

section \<open>amf-health.c: varint and delimited frames\<close>

text \<open>\<^verbatim>\<open>varint_encode\<close>: the do-while loop; \<open>buf\<close> holds the \<open>n\<close> bytes written so far,
  \<open>None\<close> is the return value \<open>-1\<close>, \<open>Some buf\<close> is the return value \<open>length buf\<close>.\<close>

function varint_loop :: "u64 \<Rightarrow> u8 list \<Rightarrow> int \<Rightarrow> u8 list option" where
  "varint_loop v buf bufsz =
     (if int (length buf) \<ge> bufsz then None
      else
        let b = (ucast (v AND 0x7F) :: u8);
            v' = drop_bit 7 v;
            b' = (if v' \<noteq> 0 then b OR 0x80 else b);
            buf' = buf @ [b']
        in if v' \<noteq> 0 then varint_loop v' buf' bufsz else Some buf')"
  by pat_completeness auto
termination
proof (relation "measure (\<lambda>(v, buf, bufsz). unat v)")
  show "wf (measure (\<lambda>(v, buf, bufsz). unat v))"
    by simp
next
  fix v :: u64 and buf :: "u8 list" and bufsz :: int and x xa xb xc
  assume xa: "xa = drop_bit 7 v" and "xa \<noteq> 0"
  then have "v \<noteq> 0"
    by auto
  then have "unat v \<noteq> 0"
    by (simp add: unat_eq_0)
  then have "unat v div 128 < unat v"
    by simp
  then have "unat (drop_bit 7 v) < unat v"
    by (simp add: drop_bit_eq_div unat_div_distrib)
  with xa
  show "((xa, xc, bufsz), v, buf, bufsz) \<in> measure (\<lambda>(v, buf, bufsz). unat v)"
    by simp
qed

declare varint_loop.simps [simp del]

definition varint_encode :: "u64 \<Rightarrow> int \<Rightarrow> u8 list option" where
  "varint_encode v bufsz = varint_loop v [] bufsz"

text \<open>\<^verbatim>\<open>read_delimited\<close>, lines 48-58: the prefix loop.  The first component is
  \<open>None\<close> for the \<open>return -1\<close> inside the loop; otherwise the loop ends by \<open>break\<close>
  or when \<open>i\<close> reaches 10, with the accumulated \<open>msg_len\<close>.\<close>

function prefix_loop :: "nat \<Rightarrow> nat \<Rightarrow> u64 \<Rightarrow> rxq \<Rightarrow> u64 option \<times> rxq" where
  "prefix_loop i shift msg_len s =
     (if i < 10 then
        (case recv 1 s of
           ([], s') \<Rightarrow> (None, s')
         | (b # _, s') \<Rightarrow>
             let msg_len' = msg_len OR push_bit shift (ucast (b AND 0x7F) :: u64)
             in if b AND 0x80 = 0 then (Some msg_len', s')
                else prefix_loop (i + 1) (shift + 7) msg_len' s')
      else (Some msg_len, s))"
  by pat_completeness auto
termination
  by (relation "measure (\<lambda>(i, shift, msg_len, s). 10 - i)") auto

declare prefix_loop.simps [simp del]

text \<open>The loop \<^verbatim>\<open>while (total < want) { n = recv(fd, buf + total, want - total, 0);
  if (n <= 0) return -1; total += n; }\<close>.  It occurs three times with the same text:
  in \<^verbatim>\<open>read_delimited\<close> (lines 64-68) and twice in \<^verbatim>\<open>read_framed\<close> (lines 71-75 for
  the header with \<open>want = 4\<close>, lines 82-86 for the payload).  \<open>buf\<close> is what has been
  stored so far, so \<open>total = length buf\<close>; the flag is \<open>False\<close> for the \<open>return -1\<close>.\<close>

function recv_fill :: "int \<Rightarrow> u8 list \<Rightarrow> rxq \<Rightarrow> bool \<times> u8 list \<times> rxq" where
  "recv_fill want buf s =
     (if int (length buf) < want then
        (case recv (nat (want - int (length buf))) s of
           ([], s') \<Rightarrow> (False, buf, s')
         | (b # bs, s') \<Rightarrow> recv_fill want (buf @ b # bs) s')
      else (True, buf, s))"
  by pat_completeness auto
termination
  by (relation "measure (\<lambda>(want, buf, s). nat (want - int (length buf)))") auto

declare recv_fill.simps [simp del]

text \<open>\<^verbatim>\<open>read_delimited\<close>, lines 59-69: what happens once the prefix is decoded.  The
  result is the return value, the bytes stored in \<open>buf\<close>, and the rest of the stream.\<close>

definition delimited_body :: "u64 \<Rightarrow> int \<Rightarrow> rxq \<Rightarrow> int \<times> u8 list \<times> rxq" where
  "delimited_body msg_len max_len s =
     (if msg_len = 0 then (0, [], s)
      else if int_of_u64 msg_len > max_len then (-1, [], s)
      else
        (case recv_fill (int_of_u64 msg_len) [] s of
           (False, buf, s') \<Rightarrow> (-1, buf, s')
         | (True, buf, s') \<Rightarrow> (int (length buf), buf, s')))"

definition read_delimited :: "rxq \<Rightarrow> int \<Rightarrow> int \<times> u8 list \<times> rxq" where
  "read_delimited s max_len =
     (case prefix_loop 0 0 0 s of
        (None, s') \<Rightarrow> (-1, [], s')
      | (Some msg_len, s') \<Rightarrow> delimited_body msg_len max_len s')"



definition HEALTH_RESP_NOT_SERVING :: "u8 list" where
  "HEALTH_RESP_NOT_SERVING = [0x08, 0x02]"

section \<open>amf-health.c: the per-connection handler\<close>




section \<open>amf-health.c: configuration, open and close, registration\<close>

text \<open>\<^verbatim>\<open>do_registration\<close>, lines 285-309: the RegisterRequest bytes built in \<open>proto\<close>
  from \<open>g_advertise_ip\<close> and \<open>g_port\<close>; \<open>None\<close> is \<^verbatim>\<open>goto done\<close> after a failed
  \<^verbatim>\<open>varint_encode\<close>.  \<open>offset\<close> is the length of the bytes built so far.\<close>

definition register_request :: "string \<Rightarrow> u16 \<Rightarrow> u8 list option" where
  "register_request advertise_ip port =
     (let proto1 = [0x08, 13] @ [0x12 :: u8];
          ip_len = length advertise_ip
      in case varint_encode (word_of_nat ip_len) (256 - int (length proto1)) of
           None \<Rightarrow> None
         | Some vn1 \<Rightarrow>
             let proto2 = proto1 @ vn1 @ map of_char advertise_ip @ [0x18]
             in (case varint_encode (ucast port) (256 - int (length proto2)) of
                   None \<Rightarrow> None
                 | Some vn2 \<Rightarrow> Some (proto2 @ vn2)))"

text \<open>The return codes \<^verbatim>\<open>OGS_OK\<close> and \<^verbatim>\<open>OGS_ERROR\<close> come from the Open5GS core headers;
  only that they differ matters here.\<close>

datatype ogs_rc = OGS_OK | OGS_ERROR

datatype thread = ServerThread | RegistrationThread | CnodeThread

datatype level = Info | Warn | Error

text \<open>What a lifecycle call does to the outside world, in order.\<close>

datatype action = Spawn thread | Join thread | CloseFd int | Log level

text \<open>The file-scope variables of amf-health.c, with the actions performed so far.\<close>

record health_state =
  server_fd :: int
  server_running :: bool
  g_bind_addr :: string
  g_advertise_ip :: string
  g_port :: u16
  g_reg_enable :: bool
  g_reg_server_ip :: string
  g_reg_server_port :: u16
  acts :: "action list"

definition health_init :: health_state where
  "health_init =
     \<lparr>server_fd = -1, server_running = False, g_bind_addr = ''0.0.0.0'',
      g_advertise_ip = ''0.0.0.0'', g_port = 50051, g_reg_enable = False,
      g_reg_server_ip = [], g_reg_server_port = 0, acts = []\<rparr>"

text \<open>What the operating system answers during one lifecycle call: the results of
  \<^verbatim>\<open>socket\<close>, \<^verbatim>\<open>bind\<close>, \<^verbatim>\<open>listen\<close> and \<^verbatim>\<open>pthread_create\<close>.\<close>

record os =
  socket_rc :: int
  bind_rc :: int
  listen_rc :: int
  pthread_create_rc :: int

text \<open>glibc's \<^verbatim>\<open>atoi\<close>, which is \<^verbatim>\<open>(int) strtol(str, NULL, 10)\<close> with a 64-bit \<open>long\<close>:
  leading white space, an optional sign, then decimal digits up to the first other
  character; \<^verbatim>\<open>strtol\<close> saturates at the range of \<open>long\<close>, and the cast to \<open>int\<close> keeps
  the low 32 bits, read as two's complement.\<close>

definition is_space :: "char \<Rightarrow> bool" where
  "is_space c = (c \<in> set [CHR '' '', CHR 0x09, CHR 0x0A, CHR 0x0B, CHR 0x0C, CHR 0x0D])"

definition is_digit :: "char \<Rightarrow> bool" where
  "is_digit c = ((48 :: nat) \<le> of_char c \<and> of_char c \<le> (57 :: nat))"

fun digits_val :: "int \<Rightarrow> string \<Rightarrow> int" where
  "digits_val acc [] = acc"
| "digits_val acc (c # cs) =
     (if is_digit c then digits_val (acc * 10 + (of_char c - 48)) cs else acc)"

definition strtol10 :: "string \<Rightarrow> int" where
  "strtol10 str =
     (let v = (case dropWhile is_space str of
                 [] \<Rightarrow> 0
               | c # cs \<Rightarrow>
                   if c = CHR ''-'' then - digits_val 0 cs
                   else if c = CHR ''+'' then digits_val 0 cs
                   else digits_val 0 (c # cs))
      in max (- (2 ^ 63)) (min (2 ^ 63 - 1) v))"

definition atoi :: "string \<Rightarrow> int" where
  "atoi str = sint (word_of_int (strtol10 str) :: u32)"

text \<open>\<^verbatim>\<open>strncpy(dst, env, sizeof(dst) - 1)\<close> and \<^verbatim>\<open>snprintf(dst, sizeof dst, "%s", env)\<close>
  into a zero-initialised \<open>char[64]\<close>: the C string left in \<open>dst\<close>.\<close>

definition copy63 :: "string \<Rightarrow> string" where
  "copy63 env = take 63 env"

text \<open>The test \<^verbatim>\<open>env && strcmp(env, "1") != 0\<close>.\<close>

definition set_and_not_1 :: "string option \<Rightarrow> bool" where
  "set_and_not_1 env = (case env of None \<Rightarrow> False | Some v \<Rightarrow> v \<noteq> ''1'')"

definition act :: "action \<Rightarrow> health_state \<Rightarrow> health_state" where
  "act a st = st\<lparr>acts := acts st @ [a]\<rparr>"

text \<open>\<^verbatim>\<open>amf_health_open\<close>, lines 184-208: the configuration read from the environment.\<close>

definition health_config :: "(string \<rightharpoonup> string) \<Rightarrow> health_state \<Rightarrow> health_state" where
  "health_config getenv st =
     (let st1 = (case getenv ''AMF_GRPC_PORT'' of
                   Some env \<Rightarrow> if atoi env > 0 then st\<lparr>g_port := word_of_int (atoi env)\<rparr> else st
                 | None \<Rightarrow> st);
          st2 = (case getenv ''AMF_GRPC_BIND_ADDR'' of
                   Some env \<Rightarrow> if length env > 0 then st1\<lparr>g_bind_addr := copy63 env\<rparr> else st1
                 | None \<Rightarrow> st1);
          st3 = (case getenv ''AMF_GRPC_ADVERTISE_IP'' of
                   Some env \<Rightarrow>
                     if length env > 0 then st2\<lparr>g_advertise_ip := copy63 env\<rparr>
                     else st2\<lparr>g_advertise_ip := copy63 (g_bind_addr st2)\<rparr>
                 | None \<Rightarrow> st2\<lparr>g_advertise_ip := copy63 (g_bind_addr st2)\<rparr>);
          st4 = st3\<lparr>g_reg_enable := (getenv ''AMF_GRPC_REGISTRATION_ENABLE'' = Some ''1'')\<rparr>
      in if g_reg_enable st4 then
           (let st5 = (case getenv ''AMF_GRPC_REGISTRATION_SERVER_IP'' of
                         Some env \<Rightarrow> st4\<lparr>g_reg_server_ip := copy63 env\<rparr>
                       | None \<Rightarrow> st4)
            in case getenv ''AMF_GRPC_REGISTRATION_SERVER_PORT'' of
                 Some env \<Rightarrow>
                   if atoi env > 0 then st5\<lparr>g_reg_server_port := word_of_int (atoi env)\<rparr>
                   else st5
               | None \<Rightarrow> st5)
         else st4)"

text \<open>\<^verbatim>\<open>amf_health_open\<close>, lines 210-250: the listening socket and the accept thread.\<close>

definition health_listen :: "os \<Rightarrow> health_state \<Rightarrow> ogs_rc \<times> health_state" where
  "health_listen sys st =
     (let st1 = st\<lparr>server_fd := socket_rc sys\<rparr>
      in if server_fd st1 < 0 then (OGS_ERROR, act (Log Error) st1)
         else if bind_rc sys < 0 then
           (OGS_ERROR,
            (act (CloseFd (server_fd st1)) (act (Log Error) st1))\<lparr>server_fd := -1\<rparr>)
         else if listen_rc sys < 0 then
           (OGS_ERROR,
            (act (CloseFd (server_fd st1)) (act (Log Error) st1))\<lparr>server_fd := -1\<rparr>)
         else
           (let st2 = st1\<lparr>server_running := True\<rparr>
            in if pthread_create_rc sys \<noteq> 0 then
                 (OGS_ERROR,
                  (act (CloseFd (server_fd st2))
                     (act (Log Error) (st2\<lparr>server_running := False\<rparr>)))\<lparr>server_fd := -1\<rparr>)
               else (OGS_OK, act (Spawn ServerThread) st2)))"

definition amf_health_open ::
    "(string \<rightharpoonup> string) \<Rightarrow> os \<Rightarrow> health_state \<Rightarrow> ogs_rc \<times> health_state" where
  "amf_health_open getenv sys st =
     (if set_and_not_1 (getenv ''AMF_GRPC_ENABLE'') then (OGS_OK, act (Log Info) st)
      else health_listen sys (health_config getenv st))"

text \<open>\<^verbatim>\<open>amf_health_close\<close>.  On a listening server the call ends in \<^verbatim>\<open>pthread_join\<close>,
  which returns only when the accept loop has ended; closing the socket need not
  wake an \<^verbatim>\<open>accept\<close> that is blocked.  \<open>join_returns\<close> says whether the join returns;
  the result \<open>None\<close> is a call that never returns.\<close>

definition amf_health_close :: "bool \<Rightarrow> health_state \<Rightarrow> health_state option" where
  "amf_health_close join_returns st =
     (if server_fd st < 0 then Some st
      else
        (let st1 = (act (CloseFd (server_fd st)) (st\<lparr>server_running := False\<rparr>))
                     \<lparr>server_fd := -1\<rparr>;
             st2 = act (Join ServerThread) st1
         in if join_returns then Some (act (Log Info) st2) else None))"

definition amf_health_send_registration :: "os \<Rightarrow> health_state \<Rightarrow> health_state" where
  "amf_health_send_registration sys st =
     (if \<not> g_reg_enable st then st
      else if g_reg_server_ip st = [] \<or> g_reg_server_port st = 0 then act (Log Warn) st
      else if pthread_create_rc sys \<noteq> 0 then act (Log Warn) st
      else act (Spawn RegistrationThread) st)"

section \<open>amf_cnode.c: fixed-prefix frames\<close>

text \<open>The four bytes of a \<open>uint32_t\<close> in memory on a little-endian host, and back.\<close>

definition bytes_of_u32 :: "u32 \<Rightarrow> u8 list" where
  "bytes_of_u32 w = [ucast w, ucast (drop_bit 8 w), ucast (drop_bit 16 w), ucast (drop_bit 24 w)]"

fun u32_of_bytes :: "u8 list \<Rightarrow> u32" where
  "u32_of_bytes [b0, b1, b2, b3] =
     ucast b0 OR push_bit 8 (ucast b1) OR push_bit 16 (ucast b2) OR push_bit 24 (ucast b3)"
| "u32_of_bytes _ = 0"

definition read_framed :: "rxq \<Rightarrow> int \<Rightarrow> int \<times> u8 list \<times> rxq" where
  "read_framed s max_len =
     (case recv_fill 4 [] s of
        (False, hdr, s') \<Rightarrow> (-1, [], s')
      | (True, hdr, s') \<Rightarrow>
          let payload_len = u32_of_bytes hdr
          in if payload_len = 0 then (0, [], s')
             else if int_of_u32 payload_len > max_len then (-1, [], s')
             else
               (case recv_fill (int_of_u32 payload_len) [] s' of
                  (False, buf, s'') \<Rightarrow> (-1, buf, s'')
                | (True, buf, s'') \<Rightarrow> (int_of_u32 payload_len, buf, s'')))"



section \<open>amf_cnode.c: the session and the reconnect loop\<close>














section \<open>amf_cnode.c: start and stop\<close>

record cnode_state =
  g_running :: bool
  g_server_ip :: string
  g_server_port :: u16
  cacts :: "action list"

definition cnode_init :: cnode_state where
  "cnode_init = \<lparr>g_running = False, g_server_ip = [], g_server_port = 9090, cacts = []\<rparr>"

definition cact :: "action \<Rightarrow> cnode_state \<Rightarrow> cnode_state" where
  "cact a st = st\<lparr>cacts := cacts st @ [a]\<rparr>"

definition amf_cnode_start ::
    "(string \<rightharpoonup> string) \<Rightarrow> os \<Rightarrow> cnode_state \<Rightarrow> ogs_rc \<times> cnode_state" where
  "amf_cnode_start getenv sys st =
     (if set_and_not_1 (getenv ''AMF_CNODE_ENABLE'') then (OGS_OK, cact (Log Info) st)
      else
        (case getenv ''AMF_CNODE_SERVER_IP'' of
           None \<Rightarrow> (OGS_OK, cact (Log Info) st)
         | Some ip \<Rightarrow>
             if ip = [] then (OGS_OK, cact (Log Info) st)
             else
               (let st1 = st\<lparr>g_server_ip := copy63 ip\<rparr>;
                    st2 = (case getenv ''AMF_CNODE_SERVER_PORT'' of
                             Some env \<Rightarrow>
                               if atoi env > 0
                               then st1\<lparr>g_server_port := word_of_int (atoi env)\<rparr>
                               else st1
                           | None \<Rightarrow> st1);
                    st3 = st2\<lparr>g_running := True\<rparr>
                in if pthread_create_rc sys \<noteq> 0 then
                     (OGS_ERROR, cact (Log Error) (st3\<lparr>g_running := False\<rparr>))
                   else (OGS_OK, cact (Log Info) (cact (Spawn CnodeThread) st3)))))"

text \<open>\<^verbatim>\<open>amf_cnode_stop\<close>.  As in \<open>amf_health_close\<close>, \<open>join_returns\<close> says whether
  \<^verbatim>\<open>pthread_join\<close> returns, and \<open>None\<close> is a call that never returns.\<close>

definition amf_cnode_stop :: "bool \<Rightarrow> cnode_state \<Rightarrow> cnode_state option" where
  "amf_cnode_stop join_returns st =
     (if \<not> g_running st then Some st
      else
        (let st1 = cact (Join CnodeThread) (st\<lparr>g_running := False\<rparr>)
         in if join_returns then Some (cact (Log Info) st1) else None))"

section \<open>Auxiliary functions for the statements\<close>

text \<open>What the prefix loop accumulates from bytes that all ask for more.\<close>

fun prefix_accum :: "nat \<Rightarrow> u64 \<Rightarrow> u8 list \<Rightarrow> u64" where
  "prefix_accum shift msg_len [] = msg_len"
| "prefix_accum shift msg_len (b # bs) =
     prefix_accum (shift + 7) (msg_len OR push_bit shift (ucast (b AND 0x7F))) bs"




section \<open>The health server's reply\<close>







section \<open>The RegisterRequest bytes\<close>

text \<open>
  Claim C7, as amended.  For \<open>g_advertise_ip = "10.0.0.1"\<close> and \<open>g_port = 50051\<close> the
  encoder produces \<open>08 0D\<close>, \<open>12 08\<close>, the eight ASCII bytes of the address, then \<open>18\<close>
  and the varint of 50051, which is \<open>83 87 03\<close> (50051 = 3 + 7 * 128 + 3 * 16384).
\<close>

theorem register_request_bytes:
  "register_request ''10.0.0.1'' 50051 =
     Some [0x08, 0x0D, 0x12, 0x08, 0x31, 0x30, 0x2E, 0x30, 0x2E, 0x30, 0x2E, 0x31,
           0x18, 0x83, 0x87, 0x03]"
  by code_simp

text \<open>The bytes \<open>C3 86 03\<close> are not the varint of 50051, and the encoder does not
  produce them.\<close>

theorem register_request_not_c3_86_03:
  "register_request ''10.0.0.1'' 50051 \<noteq>
     Some [0x08, 0x0D, 0x12, 0x08, 0x31, 0x30, 0x2E, 0x30, 0x2E, 0x30, 0x2E, 0x31,
           0x18, 0xC3, 0x86, 0x03]"
  by code_simp

section \<open>Lengths beyond the range of \<open>int\<close>\<close>

text \<open>
  Claim C1, at a failing input.  The stream carries the five-byte varint of
  \<open>2 ^ 32 + 5 = 4294967301\<close> and then seven more bytes; \<open>max_len\<close> is 64.  The prefix
  loop decodes 4294967301, which exceeds 64, but \<open>(int)msg_len\<close> is 5: the call reads
  five payload bytes from the stream and returns 5 instead of \<open>-1\<close>.
\<close>

theorem read_delimited_truncated_length:
  "prefix_loop 0 0 0 [[0x85, 0x80, 0x80, 0x80, 0x10, 1, 2, 3, 4, 5, 6, 7]]
     = (Some 4294967301, [[1, 2, 3, 4, 5, 6, 7]])
   \<and> read_delimited [[0x85, 0x80, 0x80, 0x80, 0x10, 1, 2, 3, 4, 5, 6, 7]] 64
     = (5, [1, 2, 3, 4, 5], [[6, 7]])"
  by code_simp

section \<open>Stop, close and disabled configurations\<close>

lemma health_close_noop: "server_fd st < 0 \<Longrightarrow> amf_health_close j st = Some st"
  by (simp add: amf_health_close_def)

lemma health_close_fd: "amf_health_close j st = Some st' \<Longrightarrow> server_fd st' < 0"
  by (auto simp: amf_health_close_def act_def Let_def split: if_splits)

lemma cnode_stop_noop: "\<not> g_running st \<Longrightarrow> amf_cnode_stop j st = Some st"
  by (simp add: amf_cnode_stop_def)

lemma cnode_stop_flag: "amf_cnode_stop j st = Some st' \<Longrightarrow> \<not> g_running st'"
  by (auto simp: amf_cnode_stop_def cact_def Let_def split: if_splits)

lemma health_open_disabled:
  "set_and_not_1 (getenv ''AMF_GRPC_ENABLE'') \<Longrightarrow>
     amf_health_open getenv sys st = (OGS_OK, act (Log Info) st)"
  by (simp add: amf_health_open_def)

lemma cnode_start_disabled:
  "set_and_not_1 (getenv ''AMF_CNODE_ENABLE'') \<or> getenv ''AMF_CNODE_SERVER_IP'' = None
     \<or> getenv ''AMF_CNODE_SERVER_IP'' = Some [] \<Longrightarrow>
     amf_cnode_start getenv sys st = (OGS_OK, cact (Log Info) st)"
  by (auto simp: amf_cnode_start_def split: option.splits)

text \<open>
  Claim C8.  \<open>amf_health_close\<close> and \<open>amf_cnode_stop\<close> called a second time (after a first
  call that returned), called on the initial state (before any open or start), or
  called after an open or start that returned \<open>OGS_OK\<close> in the disabled configuration,
  return, and return the state they were given: no variable changes and no action is
  performed, in particular no \<^verbatim>\<open>close\<close> and no \<^verbatim>\<open>pthread_join\<close>, so the call returns
  whether or not a join would.  Both functions return \<open>void\<close>, so there is no error
  to report.
\<close>

theorem stop_close_idempotent:
  "Option.bind (amf_health_close j hs) (amf_health_close j') = amf_health_close j hs
   \<and> amf_health_close j health_init = Some health_init
   \<and> (set_and_not_1 (getenv ''AMF_GRPC_ENABLE'') \<longrightarrow>
        fst (amf_health_open getenv sys health_init) = OGS_OK
        \<and> amf_health_close j (snd (amf_health_open getenv sys health_init))
            = Some (snd (amf_health_open getenv sys health_init)))
   \<and> Option.bind (amf_cnode_stop j cs) (amf_cnode_stop j') = amf_cnode_stop j cs
   \<and> amf_cnode_stop j cnode_init = Some cnode_init
   \<and> (set_and_not_1 (getenv ''AMF_CNODE_ENABLE'') \<or> getenv ''AMF_CNODE_SERVER_IP'' = None
        \<or> getenv ''AMF_CNODE_SERVER_IP'' = Some [] \<longrightarrow>
        fst (amf_cnode_start getenv sys cnode_init) = OGS_OK
        \<and> amf_cnode_stop j (snd (amf_cnode_start getenv sys cnode_init))
            = Some (snd (amf_cnode_start getenv sys cnode_init)))"
proof (intro conjI impI)
  show "Option.bind (amf_health_close j hs) (amf_health_close j') = amf_health_close j hs"
  proof (cases "amf_health_close j hs")
    case None
    then show ?thesis by simp
  next
    case (Some hs')
    then have "server_fd hs' < 0"
      by (rule health_close_fd)
    then have "amf_health_close j' hs' = Some hs'"
      by (rule health_close_noop)
    with Some show ?thesis by simp
  qed
  show "amf_health_close j health_init = Some health_init"
    by (simp add: health_close_noop health_init_def)
  show "Option.bind (amf_cnode_stop j cs) (amf_cnode_stop j') = amf_cnode_stop j cs"
  proof (cases "amf_cnode_stop j cs")
    case None
    then show ?thesis by simp
  next
    case (Some cs')
    then have "\<not> g_running cs'"
      by (rule cnode_stop_flag)
    then have "amf_cnode_stop j' cs' = Some cs'"
      by (rule cnode_stop_noop)
    with Some show ?thesis by simp
  qed
  show "amf_cnode_stop j cnode_init = Some cnode_init"
    by (simp add: cnode_stop_noop cnode_init_def)
next
  assume "set_and_not_1 (getenv ''AMF_GRPC_ENABLE'')"
  then have o: "amf_health_open getenv sys health_init = (OGS_OK, act (Log Info) health_init)"
    by (rule health_open_disabled)
  show "fst (amf_health_open getenv sys health_init) = OGS_OK"
    by (simp add: o)
  show "amf_health_close j (snd (amf_health_open getenv sys health_init))
            = Some (snd (amf_health_open getenv sys health_init))"
  proof -
    have "server_fd (act (Log Info) health_init) < 0"
      by (simp add: act_def health_init_def)
    then have "amf_health_close j (act (Log Info) health_init)
                 = Some (act (Log Info) health_init)"
      by (rule health_close_noop)
    then show ?thesis
      by (simp only: o snd_conv)
  qed
next
  assume "set_and_not_1 (getenv ''AMF_CNODE_ENABLE'') \<or> getenv ''AMF_CNODE_SERVER_IP'' = None
        \<or> getenv ''AMF_CNODE_SERVER_IP'' = Some []"
  then have o: "amf_cnode_start getenv sys cnode_init = (OGS_OK, cact (Log Info) cnode_init)"
    by (rule cnode_start_disabled)
  show "fst (amf_cnode_start getenv sys cnode_init) = OGS_OK"
    by (simp add: o)
  show "amf_cnode_stop j (snd (amf_cnode_start getenv sys cnode_init))
            = Some (snd (amf_cnode_start getenv sys cnode_init))"
  proof -
    have "\<not> g_running (cact (Log Info) cnode_init)"
      by (simp add: cact_def cnode_init_def)
    then have "amf_cnode_stop j (cact (Log Info) cnode_init)
                 = Some (cact (Log Info) cnode_init)"
      by (rule cnode_stop_noop)
    then show ?thesis
      by (simp only: o snd_conv)
  qed
qed

theorem stop_close_idempotent_witness:
  "set_and_not_1 ([''AMF_GRPC_ENABLE'' \<mapsto> ''0'', ''AMF_CNODE_ENABLE'' \<mapsto> ''0''] ''AMF_GRPC_ENABLE'')
   \<and> set_and_not_1 ([''AMF_GRPC_ENABLE'' \<mapsto> ''0'', ''AMF_CNODE_ENABLE'' \<mapsto> ''0''] ''AMF_CNODE_ENABLE'')
   \<and> amf_health_close False
        (snd (amf_health_open [''AMF_GRPC_ENABLE'' \<mapsto> ''0'', ''AMF_CNODE_ENABLE'' \<mapsto> ''0'']
         \<lparr>socket_rc = 3, bind_rc = 0, listen_rc = 0, pthread_create_rc = 0\<rparr> health_init))
       = Some (act (Log Info) health_init)
   \<and> amf_cnode_stop False
        (snd (amf_cnode_start [''AMF_GRPC_ENABLE'' \<mapsto> ''0'', ''AMF_CNODE_ENABLE'' \<mapsto> ''0'']
         \<lparr>socket_rc = 3, bind_rc = 0, listen_rc = 0, pthread_create_rc = 0\<rparr> cnode_init))
       = Some (cact (Log Info) cnode_init)
   \<and> Option.bind (amf_health_close True (health_init\<lparr>server_fd := 3, server_running := True\<rparr>))
        (amf_health_close False)
       = Some (health_init\<lparr>acts := [CloseFd 3, Join ServerThread, Log Info]\<rparr>)
   \<and> Option.bind (amf_cnode_stop True (cnode_init\<lparr>g_running := True\<rparr>)) (amf_cnode_stop False)
       = Some (cnode_init\<lparr>cacts := [Join CnodeThread, Log Info]\<rparr>)"
proof -
  have h: "amf_health_close True (health_init\<lparr>server_fd := 3, server_running := True\<rparr>)
             = Some (health_init\<lparr>acts := [CloseFd 3, Join ServerThread, Log Info]\<rparr>)"
    by (simp add: amf_health_close_def act_def health_init_def Let_def)
  have c: "amf_cnode_stop True (cnode_init\<lparr>g_running := True\<rparr>)
             = Some (cnode_init\<lparr>cacts := [Join CnodeThread, Log Info]\<rparr>)"
    by (simp add: amf_cnode_stop_def cact_def cnode_init_def Let_def)
  from stop_close_idempotent
      [of False health_init False
          "[''AMF_GRPC_ENABLE'' \<mapsto> ''0'', ''AMF_CNODE_ENABLE'' \<mapsto> ''0'']"
          "\<lparr>socket_rc = 3, bind_rc = 0, listen_rc = 0, pthread_create_rc = 0\<rparr>" cnode_init]
  have d: "amf_health_close False
        (snd (amf_health_open [''AMF_GRPC_ENABLE'' \<mapsto> ''0'', ''AMF_CNODE_ENABLE'' \<mapsto> ''0'']
         \<lparr>socket_rc = 3, bind_rc = 0, listen_rc = 0, pthread_create_rc = 0\<rparr> health_init))
       = Some (act (Log Info) health_init)
     \<and> amf_cnode_stop False
        (snd (amf_cnode_start [''AMF_GRPC_ENABLE'' \<mapsto> ''0'', ''AMF_CNODE_ENABLE'' \<mapsto> ''0'']
         \<lparr>socket_rc = 3, bind_rc = 0, listen_rc = 0, pthread_create_rc = 0\<rparr> cnode_init))
       = Some (cact (Log Info) cnode_init)"
    by (simp add: set_and_not_1_def amf_health_open_def amf_cnode_start_def)
  from stop_close_idempotent
      [of True "health_init\<lparr>server_fd := 3, server_running := True\<rparr>" False
          "[''AMF_GRPC_ENABLE'' \<mapsto> ''0'', ''AMF_CNODE_ENABLE'' \<mapsto> ''0'']"
          "\<lparr>socket_rc = 3, bind_rc = 0, listen_rc = 0, pthread_create_rc = 0\<rparr>"
          "cnode_init\<lparr>g_running := True\<rparr>"]
  have b: "Option.bind (amf_health_close True (health_init\<lparr>server_fd := 3, server_running := True\<rparr>))
             (amf_health_close False)
           = amf_health_close True (health_init\<lparr>server_fd := 3, server_running := True\<rparr>)
     \<and> Option.bind (amf_cnode_stop True (cnode_init\<lparr>g_running := True\<rparr>)) (amf_cnode_stop False)
           = amf_cnode_stop True (cnode_init\<lparr>g_running := True\<rparr>)"
    by blast
  from d b h c show ?thesis
    by (simp add: set_and_not_1_def)
qed

lemma health_listen_reg:
  "g_reg_enable (snd (health_listen sys st)) = g_reg_enable st"
  "g_reg_server_ip (snd (health_listen sys st)) = g_reg_server_ip st"
  "g_reg_server_port (snd (health_listen sys st)) = g_reg_server_port st"
  by (simp_all add: health_listen_def Let_def act_def)

lemma health_config_reg_enable:
  "g_reg_enable (health_config getenv st) = (getenv ''AMF_GRPC_REGISTRATION_ENABLE'' = Some ''1'')"
  by (simp add: health_config_def Let_def split: option.splits)

lemma health_config_reg_ip:
  "getenv ''AMF_GRPC_REGISTRATION_SERVER_IP'' = None \<Longrightarrow>
     g_reg_server_ip (health_config getenv st) = g_reg_server_ip st"
  by (simp add: health_config_def Let_def split: option.splits)

lemma health_config_reg_port:
  "getenv ''AMF_GRPC_REGISTRATION_SERVER_PORT'' = None \<Longrightarrow>
     g_reg_server_port (health_config getenv st) = g_reg_server_port st"
  by (simp add: health_config_def Let_def split: option.splits)

lemma health_config_acts: "acts (health_config getenv st) = acts st"
  by (simp add: health_config_def Let_def split: option.splits)

lemma health_open_reg_enable:
  "g_reg_enable (snd (amf_health_open getenv sys health_init)) \<Longrightarrow>
     getenv ''AMF_GRPC_REGISTRATION_ENABLE'' = Some ''1''"
  by (simp add: amf_health_open_def health_listen_reg health_config_reg_enable act_def
      health_init_def split: if_splits)

lemma health_open_reg_ip:
  "getenv ''AMF_GRPC_REGISTRATION_SERVER_IP'' = None \<Longrightarrow>
     g_reg_server_ip (snd (amf_health_open getenv sys health_init)) = []"
  by (simp add: amf_health_open_def health_listen_reg health_config_reg_ip act_def
      health_init_def)

lemma health_open_reg_port:
  "getenv ''AMF_GRPC_REGISTRATION_SERVER_PORT'' = None \<Longrightarrow>
     g_reg_server_port (snd (amf_health_open getenv sys health_init)) = 0"
  by (simp add: amf_health_open_def health_listen_reg health_config_reg_port act_def
      health_init_def)

lemma send_registration_no_task:
  "\<not> g_reg_enable hs \<or> g_reg_server_ip hs = [] \<or> g_reg_server_port hs = 0 \<Longrightarrow>
     amf_health_send_registration sys hs = (if g_reg_enable hs then act (Log Warn) hs else hs)"
  by (auto simp: amf_health_send_registration_def)

text \<open>
  Claim C9.  \<open>amf_health_send_registration\<close> launches no task when registration is
  disabled or the server address or port is unset: it returns the state unchanged,
  or with one warning logged when registration is enabled and the address or port is
  missing.  The same holds from the configuration: when the environment does not set
  \<^verbatim>\<open>AMF_GRPC_REGISTRATION_ENABLE\<close> to \<open>"1"\<close>, or leaves the server address or port unset,
  no registration thread is spawned after \<open>amf_health_open\<close>.  \<open>amf_cnode_start\<close>
  returns \<open>OGS_OK\<close> and spawns nothing (one line is logged) when
  \<^verbatim>\<open>AMF_CNODE_SERVER_IP\<close> is unset or empty, or \<^verbatim>\<open>AMF_CNODE_ENABLE\<close> is set to a value
  other than \<open>"1"\<close> (an unset flag has the default \<open>"1"\<close>).
\<close>

theorem absent_address_disables:
  "(\<not> g_reg_enable hs \<longrightarrow> amf_health_send_registration sys hs = hs)
   \<and> (g_reg_enable hs \<and> (g_reg_server_ip hs = [] \<or> g_reg_server_port hs = 0) \<longrightarrow>
        amf_health_send_registration sys hs = act (Log Warn) hs)
   \<and> (getenv ''AMF_GRPC_REGISTRATION_ENABLE'' \<noteq> Some ''1''
        \<or> getenv ''AMF_GRPC_REGISTRATION_SERVER_IP'' = None
        \<or> getenv ''AMF_GRPC_REGISTRATION_SERVER_PORT'' = None \<longrightarrow>
        Spawn RegistrationThread \<notin> set (acts
          (amf_health_send_registration sys (snd (amf_health_open getenv sys' health_init)))))
   \<and> (set_and_not_1 (getenv ''AMF_CNODE_ENABLE'') \<or> getenv ''AMF_CNODE_SERVER_IP'' = None
        \<or> getenv ''AMF_CNODE_SERVER_IP'' = Some [] \<longrightarrow>
        amf_cnode_start getenv sys cs = (OGS_OK, cact (Log Info) cs))"
proof (intro conjI impI)
  show "amf_health_send_registration sys hs = hs" if "\<not> g_reg_enable hs"
    using that by (simp add: amf_health_send_registration_def)
  show "amf_health_send_registration sys hs = act (Log Warn) hs"
    if "g_reg_enable hs \<and> (g_reg_server_ip hs = [] \<or> g_reg_server_port hs = 0)"
    using that by (auto simp: amf_health_send_registration_def)
  show "amf_cnode_start getenv sys cs = (OGS_OK, cact (Log Info) cs)"
    if "set_and_not_1 (getenv ''AMF_CNODE_ENABLE'') \<or> getenv ''AMF_CNODE_SERVER_IP'' = None
        \<or> getenv ''AMF_CNODE_SERVER_IP'' = Some []"
    using that by (auto simp: amf_cnode_start_def split: option.splits)
next
  let ?st = "snd (amf_health_open getenv sys' health_init)"
  assume a: "getenv ''AMF_GRPC_REGISTRATION_ENABLE'' \<noteq> Some ''1''
        \<or> getenv ''AMF_GRPC_REGISTRATION_SERVER_IP'' = None
        \<or> getenv ''AMF_GRPC_REGISTRATION_SERVER_PORT'' = None"
  have "\<not> g_reg_enable ?st \<or> g_reg_server_ip ?st = [] \<or> g_reg_server_port ?st = 0"
    using a health_open_reg_enable [of getenv sys'] health_open_reg_ip [of getenv sys']
      health_open_reg_port [of getenv sys'] by blast
  then have r: "amf_health_send_registration sys ?st
                  = (if g_reg_enable ?st then act (Log Warn) ?st else ?st)"
    by (rule send_registration_no_task)
  have n: "Spawn RegistrationThread \<notin> set (acts ?st)"
    by (simp add: amf_health_open_def health_listen_def Let_def act_def health_config_acts
        health_init_def)
  show "Spawn RegistrationThread \<notin> set (acts (amf_health_send_registration sys ?st))"
    using n by (simp add: r act_def)
qed

theorem absent_address_disables_witness:
  "amf_health_send_registration \<lparr>socket_rc = 3, bind_rc = 0, listen_rc = 0, pthread_create_rc = 0\<rparr>
      health_init = health_init
   \<and> amf_health_send_registration \<lparr>socket_rc = 3, bind_rc = 0, listen_rc = 0, pthread_create_rc = 0\<rparr>
      (health_init\<lparr>g_reg_enable := True\<rparr>) = act (Log Warn) (health_init\<lparr>g_reg_enable := True\<rparr>)
   \<and> Spawn RegistrationThread \<notin> set (acts
        (amf_health_send_registration \<lparr>socket_rc = 3, bind_rc = 0, listen_rc = 0, pthread_create_rc = 0\<rparr>
          (snd (amf_health_open [''AMF_GRPC_REGISTRATION_ENABLE'' \<mapsto> ''1'']
                 \<lparr>socket_rc = 3, bind_rc = 0, listen_rc = 0, pthread_create_rc = 0\<rparr> health_init))))
   \<and> amf_cnode_start [''AMF_GRPC_REGISTRATION_ENABLE'' \<mapsto> ''1'']
        \<lparr>socket_rc = 3, bind_rc = 0, listen_rc = 0, pthread_create_rc = 0\<rparr> cnode_init
       = (OGS_OK, cact (Log Info) cnode_init)"
  using absent_address_disables
      [of health_init "\<lparr>socket_rc = 3, bind_rc = 0, listen_rc = 0, pthread_create_rc = 0\<rparr>"
          "[''AMF_GRPC_REGISTRATION_ENABLE'' \<mapsto> ''1'']"
          "\<lparr>socket_rc = 3, bind_rc = 0, listen_rc = 0, pthread_create_rc = 0\<rparr>" cnode_init]
    absent_address_disables
      [of "health_init\<lparr>g_reg_enable := True\<rparr>"
          "\<lparr>socket_rc = 3, bind_rc = 0, listen_rc = 0, pthread_create_rc = 0\<rparr>"
          "[''AMF_GRPC_REGISTRATION_ENABLE'' \<mapsto> ''1'']"
          "\<lparr>socket_rc = 3, bind_rc = 0, listen_rc = 0, pthread_create_rc = 0\<rparr>" cnode_init]
  by (simp add: health_init_def)

section \<open>Bytes and bits\<close>

lemma low7_u64: "(v AND 0x7F :: u64) = take_bit 7 v"
  by (simp add: take_bit_eq_mask mask_eq_exp_minus_1)

lemma low7_u8: "(b AND 0x7F :: u8) = take_bit 7 b"
  by (simp add: take_bit_eq_mask mask_eq_exp_minus_1)

lemma x80_u8: "(0x80 :: u8) = 2 ^ 7"
  by simp

lemma bit_x80: "bit (0x80 :: u8) n \<longleftrightarrow> n = 7"
  by (simp only: x80_u8 bit_exp_iff) auto

lemma bit7_u8: "(b AND 0x80 = 0) = (\<not> bit (b :: u8) 7)"
  by (simp only: x80_u8 and_exp_eq_0_iff_not_bit)

lemma byte_last_low7:
  "(ucast ((ucast (v AND 0x7F :: u64) :: u8) AND 0x7F) :: u64) = take_bit 7 v"
  unfolding low7_u64 low7_u8
  by (rule bit_eqI) (auto simp: bit_simps)

lemma byte_cont_low7:
  "(ucast (((ucast (v AND 0x7F :: u64) :: u8) OR 0x80) AND 0x7F) :: u64) = take_bit 7 v"
  unfolding low7_u64 low7_u8
  by (rule bit_eqI) (auto simp: bit_simps bit_x80)

lemma byte_last_stop: "(ucast (v AND 0x7F :: u64) :: u8) AND 0x80 = 0"
  unfolding low7_u64 bit7_u8
  by (simp add: bit_simps)

lemma byte_cont_go: "((ucast (v AND 0x7F :: u64) :: u8) OR 0x80) AND 0x80 \<noteq> 0"
  unfolding bit7_u8
  by (simp add: bit_simps bit_x80)

lemma split7: "take_bit 7 v OR push_bit 7 (drop_bit 7 v) = (v :: u64)"
proof (rule bit_eqI)
  fix n
  show "bit (take_bit 7 v OR push_bit 7 (drop_bit 7 v)) n = bit v n"
  proof (cases "n < 7")
    case True
    then show ?thesis by (simp add: bit_simps)
  next
    case False
    then have "7 + (n - 7) = n" by simp
    with False show ?thesis by (auto simp: bit_simps dest: bit_imp_possible_bit)
  qed
qed

lemma join7:
  "acc OR push_bit n (take_bit 7 v) OR push_bit (n + 7) (drop_bit 7 v) = acc OR push_bit n (v :: u64)"
proof -
  have "push_bit n (take_bit 7 v) OR push_bit (n + 7) (drop_bit 7 v)
          = push_bit n (take_bit 7 v OR push_bit 7 (drop_bit 7 v))"
    by (simp add: add.commute)
  then show ?thesis
    by (simp only: split7 or.assoc)
qed

section \<open>The varint encoder\<close>

lemma drop7_less: "drop_bit 7 (v :: u64) \<noteq> 0 \<Longrightarrow> unat (drop_bit 7 v) < unat v"
proof -
  assume "drop_bit 7 v \<noteq> 0"
  then have "v \<noteq> 0" by auto
  then have "unat v \<noteq> 0" by (simp add: unat_eq_0)
  then have "unat v div 128 < unat v" by simp
  then show ?thesis by (simp add: drop_bit_eq_div unat_div_distrib)
qed

text \<open>The bytes \<open>varint_loop\<close> appends for \<open>v\<close>, as a function of \<open>v\<close> alone.\<close>

function varint_bytes :: "u64 \<Rightarrow> u8 list" where
  "varint_bytes v =
     (if drop_bit 7 v \<noteq> 0 then (ucast (v AND 0x7F) OR 0x80) # varint_bytes (drop_bit 7 v)
      else [ucast (v AND 0x7F)])"
  by pat_completeness auto
termination
proof (relation "measure unat")
  show "wf (measure (unat :: u64 \<Rightarrow> nat))"
    by simp
next
  fix v :: u64
  assume "drop_bit 7 v \<noteq> 0"
  then show "(drop_bit 7 v, v) \<in> measure unat"
    unfolding in_measure by (rule drop7_less)
qed

declare varint_bytes.simps [simp del]

lemma varint_loop_bytes:
  "varint_loop v buf bufsz =
     (if int (length buf + length (varint_bytes v)) \<le> bufsz then Some (buf @ varint_bytes v)
      else None)"
proof (induction v arbitrary: buf rule: varint_bytes.induct)
  case (1 v)
  show ?case
  proof (cases "drop_bit 7 v \<noteq> 0")
    case True
    have vb: "varint_bytes v = (ucast (v AND 0x7F) OR 0x80) # varint_bytes (drop_bit 7 v)"
      using True by (subst varint_bytes.simps) simp
    have "varint_loop v buf bufsz =
            (if int (length buf) \<ge> bufsz then None
             else varint_loop (drop_bit 7 v) (buf @ [ucast (v AND 0x7F) OR 0x80]) bufsz)"
      using True by (subst varint_loop.simps) (simp add: Let_def)
    also have "\<dots> = (if int (length buf + length (varint_bytes v)) \<le> bufsz
                      then Some (buf @ varint_bytes v) else None)"
      using True by (simp add: "1.IH" vb)
    finally show ?thesis .
  next
    case False
    have vb: "varint_bytes v = [ucast (v AND 0x7F)]"
      using False by (subst varint_bytes.simps) simp
    show ?thesis
      using False by (subst varint_loop.simps) (auto simp: Let_def vb)
  qed
qed

lemma varint_bytes_length:
  "unat v < 2 ^ (7 * k) \<Longrightarrow> 0 < k \<Longrightarrow> length (varint_bytes v) \<le> k"
proof (induction v arbitrary: k rule: varint_bytes.induct)
  case (1 v)
  show ?case
  proof (cases "drop_bit 7 v \<noteq> 0")
    case True
    have u: "unat (drop_bit 7 v) = unat v div 128"
      by (simp add: drop_bit_eq_div unat_div_distrib)
    obtain j where k: "k = Suc j"
      using "1.prems"(2) by (cases k) auto
    have "unat v < 2 ^ (7 * j) * 128"
      using "1.prems"(1) by (simp add: k power_add)
    then have "unat v div 128 < 2 ^ (7 * j)"
      by (rule less_mult_imp_div_less)
    moreover have "0 < j"
    proof (rule ccontr)
      assume "\<not> 0 < j"
      then have "unat v < 128" using "1.prems"(1) k by simp
      then have "unat (drop_bit 7 v) = 0" by (simp add: u)
      with True show False by (simp add: unat_eq_0)
    qed
    ultimately have "length (varint_bytes (drop_bit 7 v)) \<le> j"
      using "1.IH" [OF True, of j] by (simp add: u)
    then show ?thesis
      using True k by (subst varint_bytes.simps) simp
  next
    case False
    then show ?thesis
      using "1.prems"(2) by (subst varint_bytes.simps) simp
  qed
qed

lemma varint_bytes_le_10: "length (varint_bytes v) \<le> 10"
proof -
  have "unat v < 2 ^ 64"
    using unsigned_less [of v, where ?'a = nat] by simp
  then have "unat v < 2 ^ (7 * 10)"
    by simp
  then show ?thesis
    by (rule varint_bytes_length) simp
qed

lemma varint_bytes_nonempty: "varint_bytes v \<noteq> []"
  by (subst varint_bytes.simps) simp

lemma varint_encode_10: "varint_encode v 10 = Some (varint_bytes v)"
  using varint_bytes_le_10 [of v] by (simp add: varint_encode_def varint_loop_bytes)

lemma varint_encode_Some:
  "varint_encode v bufsz = Some bs \<Longrightarrow> bs = varint_bytes v"
  by (simp add: varint_encode_def varint_loop_bytes split: if_splits)

section \<open>Reading from a stream\<close>

lemma avail_Cons: "avail (c # cs) = (if c = [] then [] else c @ avail cs)"
  by (simp add: avail_def)

lemma avail_Nil: "avail [] = []"
  by (simp add: avail_def)

lemma recv_avail:
  assumes "avail s = bs @ rest" and "bs \<noteq> []"
  shows "\<exists>m s'. 0 < m \<and> m \<le> length bs \<and> recv (length bs) s = (take m bs, s')
                 \<and> avail s' = drop m bs @ rest"
proof (cases s)
  case Nil
  with assms show ?thesis by (simp add: avail_Nil)
next
  case (Cons c cs)
  with assms have c: "c \<noteq> []" and a: "c @ avail cs = bs @ rest"
    by (auto simp: avail_Cons split: if_splits)
  show ?thesis
  proof (cases "length c \<le> length bs")
    case True
    from a have "take (length c) (c @ avail cs) = take (length c) (bs @ rest)"
      by simp
    with True have t: "c = take (length c) bs"
      by simp
    from a have "drop (length c) (c @ avail cs) = drop (length c) (bs @ rest)"
      by simp
    with True have d: "avail cs = drop (length c) bs @ rest"
      by simp
    show ?thesis
      using True c t d Cons
      by (intro exI [of _ "length c"] exI [of _ cs]) auto
  next
    case False
    then have l: "length bs < length c" by simp
    from a have "take (length bs) (c @ avail cs) = take (length bs) (bs @ rest)"
      by simp
    with l have t: "take (length bs) c = bs"
      by simp
    from a have "drop (length bs) (c @ avail cs) = drop (length bs) (bs @ rest)"
      by simp
    with l have d: "drop (length bs) c @ avail cs = rest"
      by simp
    have n: "drop (length bs) c \<noteq> []"
      using l by simp
    show ?thesis
      using False assms(2) t d n Cons
      by (intro exI [of _ "length bs"] exI [of _ "drop (length bs) c # cs"])
        (auto simp: avail_Cons)
  qed
qed

lemma recv1_avail:
  assumes "avail s = b # rest"
  shows "\<exists>s'. recv 1 s = ([b], s') \<and> avail s' = rest"
proof -
  from assms have "avail s = [b] @ rest" and "[b] \<noteq> []"
    by simp_all
  from recv_avail [OF this] obtain m s' where
    m: "0 < m" "m \<le> length [b]" and r: "recv (length [b]) s = (take m [b], s')"
    and a: "avail s' = drop m [b] @ rest"
    by blast
  from m have "m = 1" by simp
  with r a show ?thesis by simp
qed

lemma recv_fill_avail:
  "avail s = bs @ rest \<Longrightarrow> want = int (length buf + length bs) \<Longrightarrow>
     \<exists>s'. recv_fill want buf s = (True, buf @ bs, s') \<and> avail s' = rest"
proof (induction "length bs" arbitrary: bs buf s rule: less_induct)
  case less
  show ?case
  proof (cases "bs = []")
    case True
    with less.prems show ?thesis
      by (subst recv_fill.simps) simp
  next
    case False
    from recv_avail [OF less.prems(1) False] obtain m s1 where
      m: "0 < m" "m \<le> length bs" and r: "recv (length bs) s = (take m bs, s1)"
      and a: "avail s1 = drop m bs @ rest"
      by blast
    have t: "take m bs \<noteq> []"
      using m False by auto
    then obtain x xs where x: "take m bs = x # xs"
      by (cases "take m bs") auto
    have "length (drop m bs) < length bs"
      using m False by simp
    moreover have "want = int (length (buf @ take m bs) + length (drop m bs))"
      using less.prems(2) m by simp
    ultimately obtain s' where
      f: "recv_fill want (buf @ take m bs) s1 = (True, (buf @ take m bs) @ drop m bs, s')"
      and a': "avail s' = rest"
      using less.hyps [OF _ a] by blast
    have "recv_fill want buf s = recv_fill want (buf @ take m bs) s1"
      using less.prems(2) False r x by (subst recv_fill.simps) simp
    with f a' show ?thesis
      by simp
  qed
qed

section \<open>Varint round trip\<close>

lemma prefix_loop_step:
  assumes "i < 10" and "recv 1 s = ([b], s1)"
  shows "prefix_loop i shift acc s =
           (if b AND 0x80 = 0 then (Some (acc OR push_bit shift (ucast (b AND 0x7F))), s1)
            else prefix_loop (i + 1) (shift + 7) (acc OR push_bit shift (ucast (b AND 0x7F))) s1)"
  using assms by (subst prefix_loop.simps) (simp add: Let_def)

lemma prefix_loop_varint_bytes:
  "avail s = varint_bytes v @ rest \<Longrightarrow> unat v < 2 ^ (64 - 7 * i) \<Longrightarrow> i < 10 \<Longrightarrow>
     \<exists>s'. prefix_loop i (7 * i) acc s = (Some (acc OR push_bit (7 * i) v), s') \<and> avail s' = rest"
proof (induction v arbitrary: i acc s rule: varint_bytes.induct)
  case (1 v)
  show ?case
  proof (cases "drop_bit 7 v \<noteq> 0")
    case True
    let ?b = "(ucast (v AND 0x7F) OR 0x80) :: u8"
    have vb: "varint_bytes v = ?b # varint_bytes (drop_bit 7 v)"
      using True by (subst varint_bytes.simps) simp
    with "1.prems"(1) have "avail s = ?b # (varint_bytes (drop_bit 7 v) @ rest)"
      by simp
    from recv1_avail [OF this] obtain s1 where
      r: "recv 1 s = ([?b], s1)" and a: "avail s1 = varint_bytes (drop_bit 7 v) @ rest"
      by blast
    have u: "unat (drop_bit 7 v) = unat v div 128"
      by (simp add: drop_bit_eq_div unat_div_distrib)
    have i9: "i < 9"
    proof (rule ccontr)
      assume "\<not> i < 9"
      with "1.prems"(3) have "i = 9" by simp
      with "1.prems"(2) have "unat v < 128" by simp
      then have "unat (drop_bit 7 v) = 0" by (simp add: u)
      with True show False by (simp add: unat_eq_0)
    qed
    then have "64 - 7 * i = (64 - 7 * (i + 1)) + 7"
      by simp
    then have "(2 :: nat) ^ (64 - 7 * i) = 2 ^ ((64 - 7 * (i + 1)) + 7)"
      by (simp only:)
    also have "\<dots> = 2 ^ (64 - 7 * (i + 1)) * 2 ^ 7"
      by (rule power_add)
    finally have "(2 :: nat) ^ (64 - 7 * i) = 2 ^ (64 - 7 * (i + 1)) * 128"
      by simp
    with "1.prems"(2) have "unat v < 2 ^ (64 - 7 * (i + 1)) * 128"
      by (simp only:)
    then have "unat v div 128 < 2 ^ (64 - 7 * (i + 1))"
      by (rule less_mult_imp_div_less)
    then have b: "unat (drop_bit 7 v) < 2 ^ (64 - 7 * (i + 1))"
      by (simp only: u)
    from i9 have "i + 1 < 10" by simp
    from "1.IH" [OF True a b this, of "acc OR push_bit (7 * i) (take_bit 7 v)"]
    obtain s' where
      p: "prefix_loop (i + 1) (7 * (i + 1)) (acc OR push_bit (7 * i) (take_bit 7 v)) s1
            = (Some ((acc OR push_bit (7 * i) (take_bit 7 v))
                       OR push_bit (7 * (i + 1)) (drop_bit 7 v)), s')"
      and a': "avail s' = rest"
      by blast
    have s7: "7 * (i + 1) = 7 * i + 7"
      by simp
    have "prefix_loop i (7 * i) acc s
            = prefix_loop (i + 1) (7 * i + 7) (acc OR push_bit (7 * i) (take_bit 7 v)) s1"
      using prefix_loop_step [OF "1.prems"(3) r, of "7 * i" acc]
      by (simp only: byte_cont_go byte_cont_low7 if_False)
    also have "\<dots> = (Some (acc OR push_bit (7 * i) v), s')"
      using p by (simp only: s7 or.assoc join7)
    finally show ?thesis
      using a' by blast
  next
    case False
    let ?b = "ucast (v AND 0x7F) :: u8"
    have vb: "varint_bytes v = [?b]"
      using False by (subst varint_bytes.simps) simp
    with "1.prems"(1) have "avail s = ?b # rest"
      by simp
    from recv1_avail [OF this] obtain s1 where
      r: "recv 1 s = ([?b], s1)" and a: "avail s1 = rest"
      by blast
    from False have z: "drop_bit 7 v = 0"
      by simp
    have "take_bit 7 v = v"
      using split7 [of v] by (simp only: z push_bit_of_0 or.right_neutral)
    then have "prefix_loop i (7 * i) acc s = (Some (acc OR push_bit (7 * i) v), s1)"
      using prefix_loop_step [OF "1.prems"(3) r, of "7 * i" acc]
      by (simp only: byte_last_stop byte_last_low7 simp_thms if_True)
    with a show ?thesis
      by blast
  qed
qed

text \<open>
  Claim C4.  For every 64-bit \<open>v\<close> (so for every \<open>v\<close> in \<open>[0, 2^63)\<close>),
  \<open>varint_encode\<close> with the ten-byte buffer of \<open>write_delimited\<close> succeeds with at most
  ten bytes; with any other buffer size it returns the same bytes or fails, so it
  never emits more than ten.  When a stream delivers these bytes, in any chunking
  and followed by anything, the prefix loop of \<open>read_delimited\<close> returns \<open>v\<close> and
  leaves exactly what followed.
\<close>

theorem varint_roundtrip:
  "\<exists>bs. varint_encode v 10 = Some bs \<and> length bs \<le> 10
      \<and> (\<forall>bufsz bs'. varint_encode v bufsz = Some bs' \<longrightarrow> bs' = bs)
      \<and> (\<forall>s rest. avail s = bs @ rest \<longrightarrow>
            (\<exists>s'. prefix_loop 0 0 0 s = (Some v, s') \<and> avail s' = rest))"
proof (intro exI [of _ "varint_bytes v"] conjI allI impI)
  show "varint_encode v 10 = Some (varint_bytes v)"
    by (rule varint_encode_10)
  show "length (varint_bytes v) \<le> 10"
    by (rule varint_bytes_le_10)
  show "bs' = varint_bytes v" if "varint_encode v bufsz = Some bs'" for bufsz bs'
    using that by (rule varint_encode_Some)
  show "\<exists>s'. prefix_loop 0 0 0 s = (Some v, s') \<and> avail s' = rest"
    if "avail s = varint_bytes v @ rest" for s rest
  proof -
    have "unat v < 2 ^ (64 - 7 * 0)"
      using unsigned_less [of v, where ?'a = nat] by simp
    from prefix_loop_varint_bytes [OF that this, of 0] show ?thesis
      by simp
  qed
qed

theorem varint_roundtrip_witness:
  "varint_encode 300 10 = Some [0xAC, 0x02]
   \<and> fst (prefix_loop 0 0 0 [[0xAC], [0x02, 0x55]]) = Some 300
   \<and> avail (snd (prefix_loop 0 0 0 [[0xAC], [0x02, 0x55]])) = [0x55]"
proof -
  have e: "varint_encode 300 10 = Some [0xAC, 0x02]"
    by code_simp
  have a: "avail [[0xAC], [0x02, 0x55]] = [0xAC, 0x02] @ [0x55]"
    by (simp add: avail_def)
  from varint_roundtrip [of 300] obtain bs where
    b: "varint_encode 300 10 = Some bs"
    and r: "\<forall>s rest. avail s = bs @ rest \<longrightarrow>
              (\<exists>s'. prefix_loop 0 0 0 s = (Some 300, s') \<and> avail s' = rest)"
    by blast
  from b e have "bs = [0xAC, 0x02]"
    by simp
  with r a obtain s' where
    "prefix_loop 0 0 0 [[0xAC], [0x02, 0x55]] = (Some 300, s')" and "avail s' = [0x55]"
    by blast
  with e show ?thesis
    by simp
qed

section \<open>Ten continuation bytes\<close>

lemma prefix_loop_continue:
  "avail s = bs @ rest \<Longrightarrow> \<forall>b \<in> set bs. b AND 0x80 \<noteq> 0 \<Longrightarrow> i + length bs \<le> 10 \<Longrightarrow>
     \<exists>s'. avail s' = rest
          \<and> prefix_loop i shift acc s
              = prefix_loop (i + length bs) (shift + 7 * length bs) (prefix_accum shift acc bs) s'"
proof (induction bs arbitrary: i shift acc s)
  case Nil
  then show ?case by (intro exI [of _ s]) simp
next
  case (Cons b bs)
  from Cons.prems(1) have "avail s = b # (bs @ rest)"
    by simp
  from recv1_avail [OF this] obtain s1 where
    r: "recv 1 s = ([b], s1)" and a: "avail s1 = bs @ rest"
    by blast
  from Cons.prems(3) have i: "i < 10" and l: "(i + 1) + length bs \<le> 10"
    by simp_all
  from Cons.prems(2) have b: "b AND 0x80 \<noteq> 0" and bs: "\<forall>b \<in> set bs. b AND 0x80 \<noteq> 0"
    by simp_all
  from Cons.IH [OF a bs l, of "shift + 7" "acc OR push_bit shift (ucast (b AND 0x7F))"]
  obtain s' where a': "avail s' = rest"
    and p: "prefix_loop (i + 1) (shift + 7) (acc OR push_bit shift (ucast (b AND 0x7F))) s1
              = prefix_loop (i + 1 + length bs) (shift + 7 + 7 * length bs)
                  (prefix_accum (shift + 7) (acc OR push_bit shift (ucast (b AND 0x7F))) bs) s'"
    by blast
  have "prefix_loop i shift acc s
          = prefix_loop (i + 1) (shift + 7) (acc OR push_bit shift (ucast (b AND 0x7F))) s1"
    using prefix_loop_step [OF i r, of shift acc] b by (simp only: if_False)
  with p a' show ?case
    by (intro exI [of _ s']) (simp add: add.assoc)
qed

text \<open>After ten continuation bytes the prefix loop leaves by \<open>i\<close> reaching 10, with no
  error branch, having consumed exactly these ten bytes.  \<open>V\<close> is the disjunction of
  their low seven bits shifted by 0, 7, ..., 63 in a 64-bit word.  What
  \<open>read_delimited\<close> does next, case by case: the empty test is on \<open>V\<close>; the bound test
  and the body read are on \<open>(int)V\<close>.\<close>

lemma ten_continuation_bytes_outcome:
  fixes b0 b1 b2 b3 b4 b5 b6 b7 b8 b9 :: u8
  defines "V \<equiv> ucast (b0 AND 0x7F) OR push_bit 7 (ucast (b1 AND 0x7F))
                  OR push_bit 14 (ucast (b2 AND 0x7F)) OR push_bit 21 (ucast (b3 AND 0x7F))
                  OR push_bit 28 (ucast (b4 AND 0x7F)) OR push_bit 35 (ucast (b5 AND 0x7F))
                  OR push_bit 42 (ucast (b6 AND 0x7F)) OR push_bit 49 (ucast (b7 AND 0x7F))
                  OR push_bit 56 (ucast (b8 AND 0x7F)) OR push_bit 63 (ucast (b9 AND 0x7F)) :: u64"
  assumes a: "avail s = [b0, b1, b2, b3, b4, b5, b6, b7, b8, b9] @ rest"
    and c: "\<forall>b \<in> set [b0, b1, b2, b3, b4, b5, b6, b7, b8, b9]. b AND 0x80 \<noteq> 0"
  shows "\<exists>s'. avail s' = rest \<and> prefix_loop 0 0 0 s = (Some V, s')
           \<and> (V = 0 \<longrightarrow> read_delimited s max_len = (0, [], s'))
           \<and> (V \<noteq> 0 \<and> int_of_u64 V > max_len \<longrightarrow> read_delimited s max_len = (-1, [], s'))
           \<and> (V \<noteq> 0 \<and> int_of_u64 V \<le> max_len \<and> int_of_u64 V \<le> 0 \<longrightarrow>
                read_delimited s max_len = (0, [], s'))
           \<and> (V \<noteq> 0 \<and> int_of_u64 V \<le> max_len \<longrightarrow>
                (\<forall>payload rest'. rest = payload @ rest' \<and> int (length payload) = int_of_u64 V \<longrightarrow>
                   (\<exists>s''. read_delimited s max_len = (int_of_u64 V, payload, s'')
                          \<and> avail s'' = rest')))"
proof -
  let ?bs = "[b0, b1, b2, b3, b4, b5, b6, b7, b8, b9]"
  have "0 + length ?bs \<le> 10"
    by simp
  from prefix_loop_continue [OF a c this, of 0 0] obtain s' where
    a': "avail s' = rest"
    and p: "prefix_loop 0 0 0 s
              = prefix_loop (0 + length ?bs) (0 + 7 * length ?bs) (prefix_accum 0 0 ?bs) s'"
    by blast
  have v: "prefix_accum 0 0 ?bs = V"
    unfolding V_def
    by (simp only: prefix_accum.simps or.assoc push_bit_0_id or.left_neutral)
       (simp only: numeral_plus_numeral add_0 arith_simps id_apply)
  have pl: "prefix_loop 0 0 0 s = (Some V, s')"
    unfolding p v by (subst prefix_loop.simps) simp
  then have r: "read_delimited s max_len = delimited_body V max_len s'"
    by (simp add: read_delimited_def)
  have e: "read_delimited s max_len = (0, [], s')" if "V = 0"
    using that by (simp add: r delimited_body_def)
  have o: "read_delimited s max_len = (-1, [], s')" if "V \<noteq> 0 \<and> int_of_u64 V > max_len"
    using that by (simp add: r delimited_body_def)
  have n: "read_delimited s max_len = (0, [], s')"
    if "V \<noteq> 0 \<and> int_of_u64 V \<le> max_len \<and> int_of_u64 V \<le> 0"
  proof -
    from that have "recv_fill (int_of_u64 V) [] s' = (True, [], s')"
      by (subst recv_fill.simps) simp
    with that show ?thesis
      by (simp add: r delimited_body_def)
  qed
  have b: "\<exists>s''. read_delimited s max_len = (int_of_u64 V, payload, s'') \<and> avail s'' = rest'"
    if "V \<noteq> 0 \<and> int_of_u64 V \<le> max_len"
      and "rest = payload @ rest' \<and> int (length payload) = int_of_u64 V"
    for payload rest'
  proof -
    from that(2) a' have "avail s' = payload @ rest'"
      and "int_of_u64 V = int (length ([] :: u8 list) + length payload)"
      by simp_all
    from recv_fill_avail [OF this] obtain s'' where
      "recv_fill (int_of_u64 V) [] s' = (True, payload, s'')" and "avail s'' = rest'"
      by auto
    with that show ?thesis
      by (simp add: r delimited_body_def)
  qed
  from a' pl e o n b show ?thesis
    by (intro exI [of _ s']) blast
qed

text \<open>
  Claim C10, at a failing input.  The stream delivers the ten continuation bytes
  \<open>85 80 80 80 80 80 80 80 80 81\<close> and then seven more bytes; \<open>max_len\<close> is 64.  The
  prefix loop stops after exactly the ten bytes, without an error, with the
  accumulated value \<open>2 ^ 63 + 5\<close>.  This value is not what decides the rest: it
  exceeds 64, but \<open>(int)msg_len\<close> is 5, so the call reads five payload bytes and
  returns 5 instead of \<open>-1\<close>.
\<close>

theorem read_delimited_ten_bytes_truncated:
  "prefix_loop 0 0 0
     [[0x85, 0x80, 0x80, 0x80, 0x80, 0x80, 0x80, 0x80, 0x80, 0x81, 1, 2, 3, 4, 5, 6, 7]]
     = (Some (2 ^ 63 + 5), [[1, 2, 3, 4, 5, 6, 7]])
   \<and> read_delimited
     [[0x85, 0x80, 0x80, 0x80, 0x80, 0x80, 0x80, 0x80, 0x80, 0x81, 1, 2, 3, 4, 5, 6, 7]] 64
     = (5, [1, 2, 3, 4, 5], [[6, 7]])"
  by code_simp

section \<open>What the writers send, and lengths within \<open>int\<close>\<close>




lemma bit_byte_of_u32:
  "bit (push_bit k (ucast (ucast (drop_bit k w) :: u8)) :: u32) n
     \<longleftrightarrow> k \<le> n \<and> n < k + 8 \<and> bit (w :: u32) n"
proof (cases "k \<le> n")
  case True
  then obtain m where "n = k + m"
    using le_Suc_ex by blast
  then show ?thesis
    by (auto simp: bit_simps dest: bit_imp_le_length)
next
  case False
  then show ?thesis
    by (simp add: bit_simps)
qed

lemma u32_bytes_inverse: "u32_of_bytes (bytes_of_u32 w) = w"
proof -
  have "u32_of_bytes (bytes_of_u32 w) =
          push_bit 0 (ucast (ucast (drop_bit 0 w) :: u8))
          OR push_bit 8 (ucast (ucast (drop_bit 8 w) :: u8))
          OR push_bit 16 (ucast (ucast (drop_bit 16 w) :: u8))
          OR push_bit 24 (ucast (ucast (drop_bit 24 w) :: u8))"
    by (simp add: bytes_of_u32_def)
  also have "\<dots> = w"
  proof (rule bit_eqI)
    fix n
    assume "possible_bit TYPE(u32) n"
    then have n: "n < 32" by simp
    show "bit (push_bit 0 (ucast (ucast (drop_bit 0 w) :: u8))
          OR push_bit 8 (ucast (ucast (drop_bit 8 w) :: u8))
          OR push_bit 16 (ucast (ucast (drop_bit 16 w) :: u8))
          OR push_bit 24 (ucast (ucast (drop_bit 24 w) :: u8)) :: u32) n = bit w n"
      unfolding bit_or_iff bit_byte_of_u32 using n by auto
  qed
  finally show ?thesis .
qed





section \<open>Frame round trip\<close>







section \<open>The cnode session answers\<close>






section \<open>The reconnect schedule\<close>













section \<open>Where the bound check holds\<close>

text \<open>The check \<^verbatim>\<open>(int)len > max_len\<close> does reject, with no payload byte read, whenever
  the cast value exceeds \<open>max_len\<close>.  In \<open>read_framed\<close> a declared length of \<open>2^31\<close> or
  more has a negative cast value: nothing is read and that negative value is
  returned.\<close>

lemma read_delimited_rejects:
  assumes a: "avail s = varint_bytes v @ rest" and nz: "v \<noteq> 0"
    and big: "int_of_u64 v > max_len"
  shows "\<exists>s'. read_delimited s max_len = (-1, [], s') \<and> avail s' = rest"
proof -
  have "unat v < 2 ^ (64 - 7 * 0)"
    using unsigned_less [of v, where ?'a = nat] by simp
  from prefix_loop_varint_bytes [OF a this, of 0] obtain s1 where
    "prefix_loop 0 0 0 s = (Some v, s1)" and "avail s1 = rest"
    by auto
  with nz big show ?thesis
    by (simp add: read_delimited_def delimited_body_def)
qed

lemma read_framed_oversize:
  assumes a: "avail s = bytes_of_u32 w @ rest" and m: "0 \<le> max_len"
    and big: "int (unat w) > max_len"
  shows "\<exists>r s'. read_framed s max_len = (r, [], s') \<and> r < 0 \<and> avail s' = rest"
proof -
  have "4 = int (length ([] :: u8 list) + length (bytes_of_u32 w))"
    by (simp add: bytes_of_u32_def)
  from recv_fill_avail [OF a this] obtain s1 where
    h: "recv_fill 4 [] s = (True, bytes_of_u32 w, s1)" and a1: "avail s1 = rest"
    by auto
  from m big have nz: "w \<noteq> 0"
    by auto
  show ?thesis
  proof (cases "sint w < 0")
    case True
    then have "recv_fill (sint w) [] s1 = (True, [], s1)"
      by (subst recv_fill.simps) simp
    with h nz True m a1 show ?thesis
      by (simp add: read_framed_def u32_bytes_inverse int_of_u32_def)
  next
    case False
    then have "0 \<le> sint w"
      by simp
    moreover have "sint w < 2 ^ 32"
      using sint_lt [of w] by simp
    ultimately have "take_bit 32 (sint w) = sint w"
      by (rule take_bit_int_eq_self)
    then have "sint w = uint w"
      using uint_sint [of w] by simp
    moreover have "uint w = int (unat w)"
      by (rule uint_nat)
    ultimately have "sint w > max_len"
      using big by linarith
    with h nz a1 show ?thesis
      by (simp add: read_framed_def u32_bytes_inverse int_of_u32_def)
  qed
qed

end
